theory Spec2Isabelle
  imports Complex_Main "HOL-Library.AList"
begin


section \<open>Python values used by block_trades_parser.py\<close>

text \<open>
  A Python \<^verbatim>\<open>str\<close> is a sequence of Unicode code points; it is modelled as a list of
  natural numbers (the code points), so that the Greek text of the report and of the
  ledger headers is one list element per character, as in Python.
\<close>

type_synonym ustr = "nat list"

datatype error = ValueError | OverflowError | AttributeError

subsection \<open>Character classes\<close>

text \<open>
  \<^verbatim>\<open>str.isspace\<close>, \<^verbatim>\<open>str.strip\<close>, \<^verbatim>\<open>str.split\<close> and the regular-expression class
  \<^verbatim>\<open>\s\<close> agree on the set of white-space code points.
\<close>

definition is_space :: "nat \<Rightarrow> bool" where
  "is_space c \<longleftrightarrow>
     (9 \<le> c \<and> c \<le> 13) \<or> (28 \<le> c \<and> c \<le> 32) \<or> c = 0x85 \<or> c = 0xA0 \<or> c = 0x1680 \<or>
     (0x2000 \<le> c \<and> c \<le> 0x200A) \<or> c = 0x2028 \<or> c = 0x2029 \<or> c = 0x202F \<or>
     c = 0x205F \<or> c = 0x3000"

text \<open>
  The class \<^verbatim>\<open>\d\<close> and the digits accepted by \<^verbatim>\<open>int\<close> and \<^verbatim>\<open>float\<close> are the
  decimal digits of Unicode (category Nd, Unicode 14): 66 runs of ten consecutive code
  points, each run holding the digits 0 to 9 in order. \<open>ND_ZEROS\<close> lists the first code
  point of every run.
\<close>

definition ND_ZEROS :: "nat list" where
  "ND_ZEROS = [
   48, 1632, 1776, 1984, 2406, 2534, 2662, 2790, 2918, 3046, 3174, 3302, 3430, 3558, 3664, 3792,
   3872, 4160, 4240, 6112, 6160, 6470, 6608, 6784, 6800, 6992, 7088, 7232, 7248, 42528, 43216,
   43264, 43472, 43504, 43600, 44016, 65296, 66720, 68912, 69734, 69872, 69942, 70096, 70384,
   70736, 70864, 71248, 71360, 71472, 71904, 72016, 72784, 73040, 73120, 92768, 92864, 93008,
   120782, 120792, 120802, 120812, 120822, 123200, 123632, 125264, 130032]"

definition is_digit :: "nat \<Rightarrow> bool" where
  "is_digit c \<longleftrightarrow> list_ex (\<lambda>z. z \<le> c \<and> c < z + 10) ND_ZEROS"

definition digit_value :: "nat \<Rightarrow> nat" where
  "digit_value c = (case find (\<lambda>z. z \<le> c \<and> c < z + 10) ND_ZEROS of Some z \<Rightarrow> c - z | None \<Rightarrow> 0)"

subsection \<open>String operations\<close>

definition strip :: "ustr \<Rightarrow> ustr" where
  "strip s = rev (dropWhile is_space (rev (dropWhile is_space s)))"

text \<open>\<^verbatim>\<open>s.split()\<close>: the maximal runs of non-white-space characters, in order.\<close>

fun split_from :: "ustr \<Rightarrow> ustr \<Rightarrow> ustr list" where
  "split_from cur [] = (if cur = [] then [] else [rev cur])"
| "split_from cur (c # cs) =
     (if is_space c then (if cur = [] then split_from [] cs else rev cur # split_from [] cs)
      else split_from (c # cur) cs)"

definition split :: "ustr \<Rightarrow> ustr list" where
  "split s = split_from [] s"

text \<open>\<^verbatim>\<open>sep.join(xs)\<close>.\<close>

fun join :: "ustr \<Rightarrow> ustr list \<Rightarrow> ustr" where
  "join sep [] = []"
| "join sep [x] = x"
| "join sep (x # y # ys) = x @ sep @ join sep (y # ys)"

text \<open>\<^verbatim>\<open>needle in s\<close>.\<close>

definition startswith :: "ustr \<Rightarrow> ustr \<Rightarrow> bool" where
  "startswith s p \<longleftrightarrow> take (length p) s = p"

fun contains :: "ustr \<Rightarrow> ustr \<Rightarrow> bool" where
  "contains [] needle = (needle = [])"
| "contains (c # cs) needle = (startswith (c # cs) needle \<or> contains cs needle)"

text \<open>\<^verbatim>\<open>s.replace(old, new)\<close> for a one-character \<open>old\<close>.\<close>

definition replace_char :: "nat \<Rightarrow> ustr \<Rightarrow> ustr \<Rightarrow> ustr" where
  "replace_char old new s = concat (map (\<lambda>c. if c = old then new else [c]) s)"

text \<open>\<^verbatim>\<open>str(n)\<close> for an integer: decimal digits, with a minus sign when negative.\<close>

fun digits_of :: "nat \<Rightarrow> ustr" where
  "digits_of n = (if n < 10 then [48 + n] else digits_of (n div 10) @ [48 + n mod 10])"

declare digits_of.simps [simp del]

definition str_int :: "int \<Rightarrow> ustr" where
  "str_int i = (if i < 0 then 45 # digits_of (nat (- i)) else digits_of (nat i))"

text \<open>Look-up in a table of pairs (the first entry for a key counts).\<close>

fun lookup :: "(nat \<times> 'a) list \<Rightarrow> nat \<Rightarrow> 'a option" where
  "lookup [] x = None"
| "lookup ((k, v) # ps) x = (if x = k then Some v else lookup ps x)"

subsection \<open>Case conversion\<close>

text \<open>
  \<^verbatim>\<open>str.upper\<close> maps every code point to its full upper-case form, which may be
  several code points long. \<open>UPPER_TABLE\<close> holds the mapping (Unicode 14) for the
  blocks Basic Latin, Latin-1 Supplement, Greek and Coptic, Greek Extended and the Kelvin
  sign; every code point that is not a key of the table is its own upper-case form in
  these blocks. Code points of other blocks are left unchanged by the model.
\<close>

definition UPPER_TABLE :: "(nat \<times> nat list) list" where
  "UPPER_TABLE = [
   (97, [65]), (98, [66]), (99, [67]), (100, [68]), (101, [69]), (102, [70]), (103, [71]), (104,
   [72]), (105, [73]), (106, [74]), (107, [75]), (108, [76]), (109, [77]), (110, [78]), (111,
   [79]), (112, [80]), (113, [81]), (114, [82]), (115, [83]), (116, [84]), (117, [85]), (118,
   [86]), (119, [87]), (120, [88]), (121, [89]), (122, [90]), (181, [924]), (223, [83, 83]),
   (224, [192]), (225, [193]), (226, [194]), (227, [195]), (228, [196]), (229, [197]), (230,
   [198]), (231, [199]), (232, [200]), (233, [201]), (234, [202]), (235, [203]), (236, [204]),
   (237, [205]), (238, [206]), (239, [207]), (240, [208]), (241, [209]), (242, [210]), (243,
   [211]), (244, [212]), (245, [213]), (246, [214]), (248, [216]), (249, [217]), (250, [218]),
   (251, [219]), (252, [220]), (253, [221]), (254, [222]), (255, [376]), (881, [880]), (883,
   [882]), (887, [886]), (891, [1021]), (892, [1022]), (893, [1023]), (912, [921, 776, 769]),
   (940, [902]), (941, [904]), (942, [905]), (943, [906]), (944, [933, 776, 769]), (945, [913]),
   (946, [914]), (947, [915]), (948, [916]), (949, [917]), (950, [918]), (951, [919]), (952,
   [920]), (953, [921]), (954, [922]), (955, [923]), (956, [924]), (957, [925]), (958, [926]),
   (959, [927]), (960, [928]), (961, [929]), (962, [931]), (963, [931]), (964, [932]), (965,
   [933]), (966, [934]), (967, [935]), (968, [936]), (969, [937]), (970, [938]), (971, [939]),
   (972, [908]), (973, [910]), (974, [911]), (976, [914]), (977, [920]), (981, [934]), (982,
   [928]), (983, [975]), (985, [984]), (987, [986]), (989, [988]), (991, [990]), (993, [992]),
   (995, [994]), (997, [996]), (999, [998]), (1001, [1000]), (1003, [1002]), (1005, [1004]),
   (1007, [1006]), (1008, [922]), (1009, [929]), (1010, [1017]), (1011, [895]), (1013, [917]),
   (1016, [1015]), (1019, [1018]), (7936, [7944]), (7937, [7945]), (7938, [7946]), (7939,
   [7947]), (7940, [7948]), (7941, [7949]), (7942, [7950]), (7943, [7951]), (7952, [7960]),
   (7953, [7961]), (7954, [7962]), (7955, [7963]), (7956, [7964]), (7957, [7965]), (7968,
   [7976]), (7969, [7977]), (7970, [7978]), (7971, [7979]), (7972, [7980]), (7973, [7981]),
   (7974, [7982]), (7975, [7983]), (7984, [7992]), (7985, [7993]), (7986, [7994]), (7987,
   [7995]), (7988, [7996]), (7989, [7997]), (7990, [7998]), (7991, [7999]), (8000, [8008]),
   (8001, [8009]), (8002, [8010]), (8003, [8011]), (8004, [8012]), (8005, [8013]), (8016, [933,
   787]), (8017, [8025]), (8018, [933, 787, 768]), (8019, [8027]), (8020, [933, 787, 769]),
   (8021, [8029]), (8022, [933, 787, 834]), (8023, [8031]), (8032, [8040]), (8033, [8041]),
   (8034, [8042]), (8035, [8043]), (8036, [8044]), (8037, [8045]), (8038, [8046]), (8039,
   [8047]), (8048, [8122]), (8049, [8123]), (8050, [8136]), (8051, [8137]), (8052, [8138]),
   (8053, [8139]), (8054, [8154]), (8055, [8155]), (8056, [8184]), (8057, [8185]), (8058,
   [8170]), (8059, [8171]), (8060, [8186]), (8061, [8187]), (8064, [7944, 921]), (8065, [7945,
   921]), (8066, [7946, 921]), (8067, [7947, 921]), (8068, [7948, 921]), (8069, [7949, 921]),
   (8070, [7950, 921]), (8071, [7951, 921]), (8072, [7944, 921]), (8073, [7945, 921]), (8074,
   [7946, 921]), (8075, [7947, 921]), (8076, [7948, 921]), (8077, [7949, 921]), (8078, [7950,
   921]), (8079, [7951, 921]), (8080, [7976, 921]), (8081, [7977, 921]), (8082, [7978, 921]),
   (8083, [7979, 921]), (8084, [7980, 921]), (8085, [7981, 921]), (8086, [7982, 921]), (8087,
   [7983, 921]), (8088, [7976, 921]), (8089, [7977, 921]), (8090, [7978, 921]), (8091, [7979,
   921]), (8092, [7980, 921]), (8093, [7981, 921]), (8094, [7982, 921]), (8095, [7983, 921]),
   (8096, [8040, 921]), (8097, [8041, 921]), (8098, [8042, 921]), (8099, [8043, 921]), (8100,
   [8044, 921]), (8101, [8045, 921]), (8102, [8046, 921]), (8103, [8047, 921]), (8104, [8040,
   921]), (8105, [8041, 921]), (8106, [8042, 921]), (8107, [8043, 921]), (8108, [8044, 921]),
   (8109, [8045, 921]), (8110, [8046, 921]), (8111, [8047, 921]), (8112, [8120]), (8113,
   [8121]), (8114, [8122, 921]), (8115, [913, 921]), (8116, [902, 921]), (8118, [913, 834]),
   (8119, [913, 834, 921]), (8124, [913, 921]), (8126, [921]), (8130, [8138, 921]), (8131, [919,
   921]), (8132, [905, 921]), (8134, [919, 834]), (8135, [919, 834, 921]), (8140, [919, 921]),
   (8144, [8152]), (8145, [8153]), (8146, [921, 776, 768]), (8147, [921, 776, 769]), (8150,
   [921, 834]), (8151, [921, 776, 834]), (8160, [8168]), (8161, [8169]), (8162, [933, 776,
   768]), (8163, [933, 776, 769]), (8164, [929, 787]), (8165, [8172]), (8166, [933, 834]),
   (8167, [933, 776, 834]), (8178, [8186, 921]), (8179, [937, 921]), (8180, [911, 921]), (8182,
   [937, 834]), (8183, [937, 834, 921]), (8188, [937, 921])]"

definition upper_cp :: "nat \<Rightarrow> ustr" where
  "upper_cp c = (case lookup UPPER_TABLE c of Some u \<Rightarrow> u | None \<Rightarrow> [c])"

definition upper :: "ustr \<Rightarrow> ustr" where
  "upper s = concat (map upper_cp s)"

section \<open>Name normalisation (norm_name)\<close>

text \<open>
  \<^verbatim>\<open>_DEACCENT_TABLE = str.maketrans("...", "...")\<close>: the twenty accented Greek letters and
  the unaccented letter each one is replaced by.
\<close>

definition DEACCENT_TABLE :: "(nat \<times> nat) list" where
  "DEACCENT_TABLE = zip
     [938, 939, 940, 941, 943, 972, 973, 942, 974, 970, 971, 912, 944, 902, 904, 906, 910, 908, 905, 911]
     [921, 933, 945, 949, 953, 959, 965, 951, 969, 953, 965, 953, 965, 913, 917, 921, 933, 927, 919, 937]"

definition deaccent :: "nat \<Rightarrow> nat" where
  "deaccent c = (case lookup DEACCENT_TABLE c of Some d \<Rightarrow> d | None \<Rightarrow> c)"

definition translate :: "ustr \<Rightarrow> ustr" where
  "translate s = map deaccent s"

text \<open>\<^verbatim>\<open>re.sub(r"\s+", " ", s)\<close>: every maximal run of white space becomes one space.\<close>

function collapse_ws :: "ustr \<Rightarrow> ustr" where
  "collapse_ws [] = []"
| "collapse_ws (c # cs) =
     (if is_space c then 32 # collapse_ws (dropWhile is_space cs) else c # collapse_ws cs)"
  by pat_completeness auto
termination
  by (relation "measure length") (auto simp: length_dropWhile_le le_imp_less_Suc)

text \<open>
  \<^verbatim>\<open>re.sub(r"\s*\(", " (", s)\<close>: scanning from the left, a run of white space (possibly
  empty) that is followed by an opening parenthesis is replaced, together with the
  parenthesis, by a space and the parenthesis; any other character is copied.
\<close>

function paren_space :: "ustr \<Rightarrow> ustr" where
  "paren_space [] = []"
| "paren_space (c # cs) =
     (case dropWhile is_space (c # cs) of
        [] \<Rightarrow> c # paren_space cs
      | d # ds \<Rightarrow> if d = 40 then 32 # 40 # paren_space ds else c # paren_space cs)"
  by pat_completeness auto
termination
proof (relation "measure length")
  fix c :: nat and cs d ds
  assume "dropWhile is_space (c # cs) = d # ds"
  then have "length (d # ds) \<le> length (c # cs)"
    by (metis length_dropWhile_le)
  then show "(ds, c # cs) \<in> measure length" by simp
qed auto

text \<open>
  A literal letter of a pattern compiled with \<^verbatim>\<open>re.I\<close> matches every code point of its
  case-insensitive class; \<open>ci_class\<close> gives the class of each letter that occurs in the two
  share-class patterns (Latin K, O, A and Greek Kappa, Omicron, Alpha).
\<close>

definition ci_class :: "nat \<Rightarrow> nat list" where
  "ci_class p =
     (if p = 75 then [75, 107, 0x212A]
      else if p = 79 then [79, 111]
      else if p = 65 then [65, 97]
      else if p = 0x39A then [0x39A, 0x3BA, 0x3F0]
      else if p = 0x39F then [0x39F, 0x3BF]
      else if p = 0x391 then [0x391, 0x3B1]
      else [p])"

definition ci_match :: "nat \<Rightarrow> nat \<Rightarrow> bool" where
  "ci_match p c \<longleftrightarrow> c \<in> set (ci_class p)"

text \<open>
  \<^verbatim>\<open>re.sub(r"\((\<Kappa>g|Kl)\)", "(Kl)", s, flags=re.I)\<close> for a Greek second letter \<open>g\<close> and a Latin
  second letter \<open>l\<close>: the source calls it with Omicron and O, then with Alpha and A.
\<close>

fun sub_share :: "nat \<Rightarrow> nat \<Rightarrow> ustr \<Rightarrow> ustr" where
  "sub_share g l (a # b # c # d # rest) =
     (if a = 40 \<and> ((ci_match 0x39A b \<and> ci_match g c) \<or> (ci_match 75 b \<and> ci_match l c)) \<and> d = 41
      then [40, 75, l, 41] @ sub_share g l rest
      else a # sub_share g l (b # c # d # rest))"
| "sub_share g l (a # rest) = a # sub_share g l rest"
| "sub_share g l [] = []"

definition norm_name :: "ustr \<Rightarrow> ustr" where
  "norm_name s =
     (let s1 = translate s;
          s2 = collapse_ws (strip s1);
          s3 = paren_space s2;
          s4 = sub_share 0x39F 79 s3;
          s5 = sub_share 0x391 65 s4
      in upper s5)"

section \<open>Floating-point numbers and their formatting\<close>

text \<open>
  A Python \<^verbatim>\<open>float\<close> is an IEEE double: an infinity, a NaN, or a finite number given by a
  sign, a mantissa \<open>m\<close> and an exponent \<open>e\<close>, with value \<open>m * 2 ^ e\<close>. Finite numbers are
  kept in the canonical form of the format (\<open>m < 2 ^ 53\<close>, \<open>- 1074 \<le> e \<le> 971\<close>, and
  \<open>2 ^ 52 \<le> m\<close> unless \<open>e = - 1074\<close>; zero is \<open>m = 0\<close>, \<open>e = 0\<close>), so that equal numbers are
  equal values of the datatype. The sign is kept apart because \<^verbatim>\<open>-0.0\<close> prints its sign.
\<close>

datatype pyfloat = Finite bool nat int | Inf bool | NaN

text \<open>Rounding the fraction \<open>num / den\<close> to the nearest integer, ties to even.\<close>

definition round_half_even :: "nat \<Rightarrow> nat \<Rightarrow> nat" where
  "round_half_even num den =
     (let f = num div den; r = num mod den
      in if 2 * r < den then f else if den < 2 * r then f + 1 else if even f then f else f + 1)"

text \<open>\<^verbatim>\<open>int.bit_length\<close>.\<close>

fun bit_length :: "nat \<Rightarrow> nat" where
  "bit_length n = (if n = 0 then 0 else Suc (bit_length (n div 2)))"

declare bit_length.simps [simp del]

text \<open>
  The double nearest to the fraction \<open>n / d\<close> (\<open>d > 0\<close>), ties to even, as the conversion
  of a decimal literal does: \<open>k\<close> is the binary exponent of the fraction
  (\<open>2 ^ k \<le> n / d < 2 ^ (k + 1)\<close>), \<open>e\<close> the exponent of the last mantissa bit, and a
  result beyond the largest double is an infinity.
\<close>

definition float_of_frac :: "bool \<Rightarrow> nat \<Rightarrow> nat \<Rightarrow> pyfloat" where
  "float_of_frac neg n d =
     (if n = 0 then Finite neg 0 0
      else
        (let k0 = int (bit_length n) - int (bit_length d);
             k = (if (if 0 \<le> k0 then d * 2 ^ nat k0 \<le> n else d \<le> n * 2 ^ nat (- k0)) then k0 else k0 - 1);
             e = max (k - 52) (- 1074);
             m = (if 0 \<le> e then round_half_even n (d * 2 ^ nat e)
                  else round_half_even (n * 2 ^ nat (- e)) d);
             m' = (if m = 2 ^ 53 then 2 ^ 52 else m);
             e' = (if m = 2 ^ 53 then e + 1 else e)
         in if 971 < e' then Inf neg else if m' = 0 then Finite neg 0 0 else Finite neg m' e'))"

text \<open>\<^verbatim>\<open>f"{p:.2f}"\<close>: correctly rounded to two fraction digits, ties to even.\<close>

definition format_2f :: "pyfloat \<Rightarrow> ustr" where
  "format_2f p =
     (case p of
        NaN \<Rightarrow> [110, 97, 110]
      | Inf neg \<Rightarrow> (if neg then [45] else []) @ [105, 110, 102]
      | Finite neg m e \<Rightarrow>
          (let n = (if 0 \<le> e then m * 100 * 2 ^ nat e else round_half_even (m * 100) (2 ^ nat (- e)))
           in (if neg then [45] else []) @ digits_of (n div 100) @ [46] @
              [48 + (n mod 100) div 10, 48 + n mod 10]))"

section \<open>The worksheet\<close>

datatype date = Date (year: nat) (month: nat) (day: nat)

text \<open>
  A cell value: empty, text, integer, float, boolean, or a date-time (a date and the time of
  day in seconds; \<^verbatim>\<open>dt.datetime.combine(d, dt.time())\<close> is \<open>CDateTime d 0\<close>).
\<close>

datatype cell = CNone | CStr ustr | CInt int | CFloat pyfloat | CBool bool | CDateTime date nat

text \<open>
  The worksheet is openpyxl's dictionary of cells, keyed by (row, column), in insertion order.
  \<^verbatim>\<open>max_row\<close> and \<^verbatim>\<open>max_column\<close> are the largest row and column of an existing cell,
  and 1 for a sheet without cells.
\<close>

type_synonym worksheet = "((nat \<times> nat) \<times> cell) list"

definition ws_max_row :: "worksheet \<Rightarrow> nat" where
  "ws_max_row ws = fold (\<lambda>((r, c), v) m. max r m) ws 1"

definition ws_max_column :: "worksheet \<Rightarrow> nat" where
  "ws_max_column ws = fold (\<lambda>((r, c), v) m. max c m) ws 1"

definition cell_value :: "worksheet \<Rightarrow> nat \<Rightarrow> nat \<Rightarrow> cell" where
  "cell_value ws r c = (case map_of ws (r, c) of Some v \<Rightarrow> v | None \<Rightarrow> CNone)"

text \<open>
  \<^verbatim>\<open>ws.cell(row, column, value)\<close> creates the cell when it does not exist and stores the
  value unless the value is \<^verbatim>\<open>None\<close>; it raises \<^verbatim>\<open>ValueError\<close> for a row or column below 1.
  \<open>put_cell\<close> is its effect on the cells for valid indices.
\<close>

definition put_cell :: "worksheet \<Rightarrow> nat \<Rightarrow> nat \<Rightarrow> cell \<Rightarrow> worksheet" where
  "put_cell ws r c v =
     (if v = CNone then (if map_of ws (r, c) = None then ws @ [((r, c), CNone)] else ws)
      else AList.update (r, c) v ws)"

definition ws_cell :: "worksheet \<Rightarrow> nat \<Rightarrow> nat \<Rightarrow> cell \<Rightarrow> error + worksheet" where
  "ws_cell ws r c v = (if r < 1 \<or> c < 1 then Inl ValueError else Inr (put_cell ws r c v))"

section \<open>Excel helpers\<close>

subsection \<open>find_or_create_date_row\<close>

text \<open>
  \<^verbatim>\<open>pd.to_datetime(val, dayfirst=True).date()\<close> inside \<^verbatim>\<open>try\<close>: a date-time cell gives
  its date. How pandas reads any other value (text, numbers) is library behaviour outside
  the repository and is the parameter \<open>lenient\<close>; \<open>None\<close> stands for an exception or a
  result that is not a date.
\<close>

definition cell_date :: "(cell \<Rightarrow> date option) \<Rightarrow> cell \<Rightarrow> date option" where
  "cell_date lenient val = (case val of CDateTime d t \<Rightarrow> Some d | _ \<Rightarrow> lenient val)"

text \<open>
  The loop over \<^verbatim>\<open>range(3, max_row + 1)\<close>. Reading \<^verbatim>\<open>ws.cell(row=r, column=1).value\<close>
  creates the cell when it is missing; the rows read are at least 3, so \<^verbatim>\<open>ws.cell\<close>
  cannot raise here.
\<close>

fun scan_dates :: "(cell \<Rightarrow> date option) \<Rightarrow> worksheet \<Rightarrow> date \<Rightarrow> nat list \<Rightarrow> worksheet \<times> nat option" where
  "scan_dates lenient ws target_date [] = (ws, None)"
| "scan_dates lenient ws target_date (r # rs) =
     (let ws1 = put_cell ws r 1 CNone; val = cell_value ws1 r 1
      in if val = CNone then scan_dates lenient ws1 target_date rs
         else case cell_date lenient val of
                None \<Rightarrow> scan_dates lenient ws1 target_date rs
              | Some d \<Rightarrow> if d = target_date then (ws1, Some r)
                          else scan_dates lenient ws1 target_date rs)"

definition find_or_create_date_row :: "(cell \<Rightarrow> date option) \<Rightarrow> worksheet \<Rightarrow> date \<Rightarrow> nat \<times> worksheet" where
  "find_or_create_date_row lenient ws target_date =
     (let max_row = (if ws_max_row ws = 0 then 1 else ws_max_row ws)
      in case scan_dates lenient ws target_date [3..<max_row + 1] of
           (ws1, Some r) \<Rightarrow> (r, ws1)
         | (ws1, None) \<Rightarrow> (max_row + 1, put_cell ws1 (max_row + 1) 1 (CDateTime target_date 0)))"

subsection \<open>read_company_header_positions\<close>

text \<open>Python truth value of a cell value (\<^verbatim>\<open>if header\<close>).\<close>

definition truthy :: "cell \<Rightarrow> bool" where
  "truthy v =
     (case v of CNone \<Rightarrow> False | CStr s \<Rightarrow> s \<noteq> [] | CInt i \<Rightarrow> i \<noteq> 0
      | CFloat f \<Rightarrow> (case f of Finite neg m e \<Rightarrow> m \<noteq> 0 | _ \<Rightarrow> True)
      | CBool b \<Rightarrow> b | CDateTime d t \<Rightarrow> True)"

text \<open>
  \<^verbatim>\<open>str(header)\<close>. The text Python prints for a float or a date-time is library
  behaviour outside the repository and is the parameter \<open>render\<close>.
\<close>

definition str_cell :: "(cell \<Rightarrow> ustr) \<Rightarrow> cell \<Rightarrow> ustr" where
  "str_cell render v =
     (case v of CStr s \<Rightarrow> s | CInt i \<Rightarrow> str_int i
      | CBool b \<Rightarrow> (if b then [84, 114, 117, 101] else [70, 97, 108, 115, 101])
      | _ \<Rightarrow> render v)"

text \<open>
  The dictionary \<^verbatim>\<open>positions\<close> is an association list in insertion order; assigning to
  an existing key replaces its value in place (\<open>AList.update\<close>).
\<close>

type_synonym positions = "(ustr \<times> (nat \<times> ustr)) list"

function header_loop :: "(cell \<Rightarrow> ustr) \<Rightarrow> worksheet \<Rightarrow> nat \<Rightarrow> nat \<Rightarrow> positions \<Rightarrow> positions \<times> worksheet" where
  "header_loop render ws max_col c positions =
     (if c \<le> max_col then
        (let ws1 = put_cell ws 2 c CNone; header = cell_value ws1 2 c
         in if truthy header \<and> strip (str_cell render header) \<noteq> [] then
              (let txt = strip (str_cell render header)
               in header_loop render ws1 max_col (c + 4)
                    (AList.update (norm_name txt) (c, txt) positions))
            else header_loop render ws1 max_col (c + 4) positions)
      else (positions, ws))"
  by pat_completeness auto
termination
  by (relation "measure (\<lambda>(render, ws, max_col, c, positions). max_col + 1 - c)") auto

declare header_loop.simps [simp del]

definition read_company_header_positions :: "(cell \<Rightarrow> ustr) \<Rightarrow> worksheet \<Rightarrow> positions \<times> worksheet" where
  "read_company_header_positions render ws = header_loop render ws (ws_max_column ws) 2 []"

subsection \<open>price_list_greek, volume_formula, fill_row\<close>

definition price_list_greek :: "pyfloat list \<Rightarrow> ustr" where
  "price_list_greek prices = join [45] (map (\<lambda>p. replace_char 46 [44] (format_2f p)) prices)"

definition volume_formula :: "int list \<Rightarrow> cell" where
  "volume_formula volumes =
     (if volumes = [] then CNone
      else if length volumes = 1 then CInt (hd volumes)
      else CStr ([61] @ join [43] (map str_int volumes)))"

text \<open>The per-company dictionary \<^verbatim>\<open>{"volumes": [...], "prices": [...]}\<close>.\<close>

record trade_group =
  volumes :: "int list"
  prices :: "pyfloat list"

type_synonym trades = "(ustr \<times> trade_group) list"

text \<open>
  The loop of \<^verbatim>\<open>fill_row\<close> over \<^verbatim>\<open>header_pos.items()\<close>. A trade group is a dictionary
  with two keys, so \<^verbatim>\<open>if not data\<close> holds exactly when the company has no group.
\<close>

fun fill_row :: "worksheet \<Rightarrow> nat \<Rightarrow> positions \<Rightarrow> trades \<Rightarrow> date \<Rightarrow> error + worksheet" where
  "fill_row ws row_idx [] trades date_obj = Inr ws"
| "fill_row ws row_idx ((comp_norm, start_col, hdr) # rest) trades date_obj =
     (case ws_cell ws row_idx start_col (CDateTime date_obj 0) of
        Inl e \<Rightarrow> Inl e
      | Inr ws1 \<Rightarrow>
          (case map_of trades comp_norm of
             None \<Rightarrow> fill_row ws1 row_idx rest trades date_obj
           | Some data \<Rightarrow>
               (case ws_cell ws1 row_idx (start_col + 1) (volume_formula (volumes data)) of
                  Inl e \<Rightarrow> Inl e
                | Inr ws2 \<Rightarrow>
                    (case ws_cell ws2 row_idx (start_col + 2) (CInt (int (length (volumes data)))) of
                       Inl e \<Rightarrow> Inl e
                     | Inr ws3 \<Rightarrow>
                         (case ws_cell ws3 row_idx (start_col + 3) (CStr (price_list_greek (prices data))) of
                            Inl e \<Rightarrow> Inl e
                          | Inr ws4 \<Rightarrow> fill_row ws4 row_idx rest trades date_obj)))))"

section \<open>Auxiliary notions for the statements\<close>

definition item_cell :: "trades \<Rightarrow> date \<Rightarrow> ustr \<Rightarrow> nat \<Rightarrow> cell \<Rightarrow> cell" where
  "item_cell trades d k off old =
     (if off = 0 then CDateTime d 0
      else case map_of trades k of
             None \<Rightarrow> old
           | Some g \<Rightarrow>
               if off = 1 then (if volumes g = [] then old else volume_formula (volumes g))
               else if off = 2 then CInt (int (length (volumes g)))
               else if off = 3 then CStr (price_list_greek (prices g))
               else old)"

definition header_text :: "(cell \<Rightarrow> ustr) \<Rightarrow> worksheet \<Rightarrow> nat \<Rightarrow> ustr option" where
  "header_text render ws c =
     (let header = cell_value ws 2 c
      in if truthy header \<and> strip (str_cell render header) \<noteq> []
         then Some (strip (str_cell render header)) else None)"

definition header_step :: "(cell \<Rightarrow> ustr) \<Rightarrow> worksheet \<Rightarrow> nat \<Rightarrow> positions \<Rightarrow> positions" where
  "header_step render ws c P =
     (case header_text render ws c of
        Some txt \<Rightarrow> AList.update (norm_name txt) (c, txt) P
      | None \<Rightarrow> P)"

fun split_on :: "nat \<Rightarrow> ustr \<Rightarrow> ustr list" where
  "split_on sep [] = [[]]"
| "split_on sep (c # cs) =
     (if c = sep then [] # split_on sep cs
      else (case split_on sep cs of x # xs \<Rightarrow> (c # x) # xs | [] \<Rightarrow> [[c]]))"

definition dec_nat :: "ustr \<Rightarrow> nat" where
  "dec_nat s = foldl (\<lambda>a c. 10 * a + (c - 48)) 0 s"

definition dec_int :: "ustr \<Rightarrow> int" where
  "dec_int s = (case s of [] \<Rightarrow> 0 | c # cs \<Rightarrow> if c = 45 then - int (dec_nat cs) else int (dec_nat s))"

definition formula_operands :: "ustr \<Rightarrow> int list" where
  "formula_operands f = map dec_int (split_on 43 (tl f))"

definition date_matches :: "(cell \<Rightarrow> date option) \<Rightarrow> date \<Rightarrow> cell \<Rightarrow> bool" where
  "date_matches lenient target_date val \<longleftrightarrow> val \<noteq> CNone \<and> cell_date lenient val = Some target_date"

section \<open>Worksheet and ledger lemmas\<close>

lemma map_of_put_cell_None:
  "cell_value (put_cell ws r c CNone) r' c' = cell_value ws r' c'"
  by (auto simp: cell_value_def put_cell_def split: option.splits if_splits)

lemma cell_value_put_cell:
  "cell_value (put_cell ws r c v) r' c' =
     (if r' = r \<and> c' = c \<and> v \<noteq> CNone then v else cell_value ws r' c')"
  by (auto simp: cell_value_def put_cell_def update_conv' split: option.splits if_splits)

lemma ws_cell_ok: "1 \<le> r \<Longrightarrow> 1 \<le> c \<Longrightarrow> ws_cell ws r c v = Inr (put_cell ws r c v)"
  by (simp add: ws_cell_def)

lemma fill_row_frame:
  "fill_row ws row hp trades d = Inr ws' \<Longrightarrow>
   r \<noteq> row \<or> (\<forall>(k, c, t) \<in> set hp. col < c \<or> c + 3 < col) \<Longrightarrow>
   cell_value ws' r col = cell_value ws r col"
proof (induction hp arbitrary: ws)
  case Nil
  then show ?case by simp
next
  case (Cons item hp)
  obtain k c t where item: "item = (k, c, t)" by (cases item) auto
  from Cons.prems(2) have rest: "r \<noteq> row \<or> (\<forall>(k, c, t) \<in> set hp. col < c \<or> c + 3 < col)"
    by auto
  from Cons.prems(2) have here: "r \<noteq> row \<or> col < c \<or> c + 3 < col"
    by (auto simp: item)
  show ?case
  proof (cases "map_of trades k")
    case None
    with Cons.prems(1) obtain ws1 where ws1: "ws_cell ws row c (CDateTime d 0) = Inr ws1"
      and run: "fill_row ws1 row hp trades d = Inr ws'"
      by (auto simp: item split: sum.splits)
    from ws1 have "ws1 = put_cell ws row c (CDateTime d 0)"
      by (auto simp: ws_cell_def split: if_splits)
    with here have "cell_value ws1 r col = cell_value ws r col"
      by (auto simp: cell_value_put_cell)
    with Cons.IH[OF run rest] show ?thesis by simp
  next
    case (Some g)
    with Cons.prems(1) obtain ws1 ws2 ws3 ws4 where
      ws1: "ws_cell ws row c (CDateTime d 0) = Inr ws1"
      and ws2: "ws_cell ws1 row (c + 1) (volume_formula (volumes g)) = Inr ws2"
      and ws3: "ws_cell ws2 row (c + 2) (CInt (int (length (volumes g)))) = Inr ws3"
      and ws4: "ws_cell ws3 row (c + 3) (CStr (price_list_greek (prices g))) = Inr ws4"
      and run: "fill_row ws4 row hp trades d = Inr ws'"
      by (auto simp: item split: sum.splits)
    from ws1 ws2 ws3 ws4 have "cell_value ws4 r col = cell_value ws r col"
      using here by (auto simp: ws_cell_def cell_value_put_cell split: if_splits)
    with Cons.IH[OF run rest] show ?thesis by simp
  qed
qed

lemma fill_row_total:
  "1 \<le> row \<Longrightarrow> \<forall>(k, c, t) \<in> set hp. 1 \<le> c \<Longrightarrow> \<exists>ws'. fill_row ws row hp trades d = Inr ws'"
proof (induction hp arbitrary: ws)
  case Nil
  then show ?case by simp
next
  case (Cons item hp)
  obtain k c t where item: "item = (k, c, t)" by (cases item) auto
  from Cons.prems have c: "1 \<le> c" and rest: "\<forall>(k, c, t) \<in> set hp. 1 \<le> c"
    by (auto simp: item)
  show ?case
    using Cons.IH[OF Cons.prems(1) rest] Cons.prems(1) c
    by (cases "map_of trades k") (simp_all add: item ws_cell_ok)
qed

lemma volume_formula_None: "volume_formula vs = CNone \<longleftrightarrow> vs = []"
  by (simp add: volume_formula_def)

lemma fill_row_Cons_step:
  assumes "fill_row ws row ((k, c, t) # hp) trades d = Inr ws'"
  shows "\<exists>W. fill_row W row hp trades d = Inr ws' \<and>
          (\<forall>col. cell_value W row col =
           (if c \<le> col \<and> col \<le> c + 3 then item_cell trades d k (col - c) (cell_value ws row col)
            else cell_value ws row col))"
proof (cases "map_of trades k")
  case None
  with assms obtain ws1 where ws1: "ws_cell ws row c (CDateTime d 0) = Inr ws1"
    and run: "fill_row ws1 row hp trades d = Inr ws'"
    by (auto split: sum.splits)
  from ws1 have eq: "ws1 = put_cell ws row c (CDateTime d 0)"
    by (auto simp: ws_cell_def split: if_splits)
  have "cell_value ws1 row col =
           (if c \<le> col \<and> col \<le> c + 3 then item_cell trades d k (col - c) (cell_value ws row col)
            else cell_value ws row col)" for col
    by (auto simp: eq cell_value_put_cell item_cell_def None)
  with run show ?thesis by blast
next
  case (Some g)
  with assms obtain ws1 ws2 ws3 ws4 where
    ws1: "ws_cell ws row c (CDateTime d 0) = Inr ws1"
    and ws2: "ws_cell ws1 row (c + 1) (volume_formula (volumes g)) = Inr ws2"
    and ws3: "ws_cell ws2 row (c + 2) (CInt (int (length (volumes g)))) = Inr ws3"
    and ws4: "ws_cell ws3 row (c + 3) (CStr (price_list_greek (prices g))) = Inr ws4"
    and run: "fill_row ws4 row hp trades d = Inr ws'"
    by (auto split: sum.splits)
  from ws1 ws2 ws3 ws4 have eq:
    "ws4 = put_cell (put_cell (put_cell (put_cell ws row c (CDateTime d 0)) row (c + 1)
              (volume_formula (volumes g))) row (c + 2) (CInt (int (length (volumes g)))))
              row (c + 3) (CStr (price_list_greek (prices g)))"
    by (auto simp: ws_cell_def split: if_splits)
  have "cell_value ws4 row col =
           (if c \<le> col \<and> col \<le> c + 3 then item_cell trades d k (col - c) (cell_value ws row col)
            else cell_value ws row col)" for col
    by (auto simp: eq cell_value_put_cell item_cell_def Some volume_formula_None)
  with run show ?thesis by blast
qed

lemma stride_next: "c \<le> c1 \<Longrightarrow> c1 mod 4 = c mod 4 \<Longrightarrow> c1 \<noteq> c \<Longrightarrow> c + 4 \<le> (c1::nat)"
proof -
  assume a: "c \<le> c1" "c1 mod 4 = c mod 4" "c1 \<noteq> c"
  then have "4 dvd c1 - c" by (simp add: mod_eq_dvd_iff_nat)
  moreover from a have "0 < c1 - c" by simp
  ultimately have "4 \<le> c1 - c" by (rule dvd_imp_le)
  with a show ?thesis by simp
qed

lemma blocks_apart:
  "(c::nat) mod 4 = 2 \<Longrightarrow> c' mod 4 = 2 \<Longrightarrow> c' \<noteq> c \<Longrightarrow> off \<le> 3 \<Longrightarrow>
   c + off < c' \<or> c' + 3 < c + off"
proof -
  assume a: "c mod 4 = 2" "c' mod 4 = 2" "c' \<noteq> c" "off \<le> 3"
  show ?thesis
  proof (cases "c \<le> c'")
    case True
    with a have "c + 4 \<le> c'" by (intro stride_next) simp_all
    with a show ?thesis by simp
  next
    case False
    with a have "c' + 4 \<le> c" by (intro stride_next) simp_all
    then show ?thesis by simp
  qed
qed

lemma anchor_fresh:
  "distinct (map (\<lambda>(k, c, t). c) ((k0, c0, t0) # hp)) \<Longrightarrow> (k', c', t') \<in> set hp \<Longrightarrow> c' \<noteq> (c0::nat)"
  by force

lemma fill_row_block:
  assumes "\<forall>(k, c, t) \<in> set hp. c mod 4 = 2"
    and "distinct (map (\<lambda>(k, c, t). c) hp)"
    and "(comp_norm, anchor, hdr) \<in> set hp"
    and "fill_row ws row hp trades d = Inr ws'"
    and "off \<le> 3"
  shows "cell_value ws' row (anchor + off) = item_cell trades d comp_norm off (cell_value ws row (anchor + off))"
  using assms
proof (induction hp arbitrary: ws)
  case Nil
  then show ?case by simp
next
  case (Cons item hp)
  obtain k c t where item: "item = (k, c, t)" by (cases item) auto
  from Cons.prems(4) obtain W where run: "fill_row W row hp trades d = Inr ws'"
    and W: "\<And>col. cell_value W row col =
           (if c \<le> col \<and> col \<le> c + 3 then item_cell trades d k (col - c) (cell_value ws row col)
            else cell_value ws row col)"
    using fill_row_Cons_step[of ws row k c t hp trades d ws'] unfolding item by blast
  from Cons.prems(1) have al: "\<forall>(k, c, t) \<in> set hp. c mod 4 = 2" and c4: "c mod 4 = 2"
    by (auto simp: item)
  from Cons.prems(2) have di: "distinct (map (\<lambda>(k, c, t). c) hp)"
    by (simp add: item)
  have fresh: "c' \<noteq> c" if "(k', c', t') \<in> set hp" for k' c' t'
    using anchor_fresh[OF Cons.prems(2)[unfolded item] that] .
  show ?case
  proof (cases "(comp_norm, anchor, hdr) = item")
    case True
    then have [simp]: "comp_norm = k" "anchor = c" by (simp_all add: item)
    have "\<forall>(k', c', t') \<in> set hp. c + off < c' \<or> c' + 3 < c + off"
    proof (clarify)
      fix k' c' t' assume mem: "(k', c', t') \<in> set hp" and "\<not> c' + 3 < c + off"
      from mem al have "c' mod 4 = 2" by auto
      moreover from mem fresh have "c' \<noteq> c" by auto
      ultimately show "c + off < c'"
        using blocks_apart[OF c4 _ _ \<open>off \<le> 3\<close>, of c'] \<open>\<not> c' + 3 < c + off\<close> by blast
    qed
    then have "cell_value ws' row (c + off) = cell_value W row (c + off)"
      using fill_row_frame[OF run, of row "c + off"] by blast
    then show ?thesis using W[of "c + off"] \<open>off \<le> 3\<close> by simp
  next
    case False
    with Cons.prems(3) have mem: "(comp_norm, anchor, hdr) \<in> set hp" by (auto simp: item)
    from mem al have a4: "anchor mod 4 = 2" by auto
    from mem fresh have "anchor \<noteq> c" by auto
    then have "c \<noteq> anchor" by simp
    from blocks_apart[OF a4 c4 this \<open>off \<le> 3\<close>]
    have out: "\<not> (c \<le> anchor + off \<and> anchor + off \<le> c + 3)"
      by linarith
    from Cons.IH[OF al di mem run \<open>off \<le> 3\<close>] W[of "anchor + off"] out
    show ?thesis by simp
  qed
qed

lemma header_text_touch [simp]:
  "header_text render (put_cell ws r c CNone) c' = header_text render ws c'"
  by (simp add: header_text_def map_of_put_cell_None)

lemma header_loop_step:
  "header_loop render ws mc c P =
     (if c \<le> mc
      then header_loop render (put_cell ws 2 c CNone) mc (c + 4) (header_step render ws c P)
      else (P, ws))"
  by (subst header_loop.simps)
     (simp add: header_step_def header_text_def Let_def map_of_put_cell_None)

lemma map_of_header_step:
  "map_of (header_step render ws c P) k =
     (case header_text render ws c of
        Some txt \<Rightarrow> if k = norm_name txt then Some (c, txt) else map_of P k
      | None \<Rightarrow> map_of P k)"
  by (auto simp: header_step_def update_conv' split: option.splits)

lemma header_loop_unfold:
  "c \<le> mc \<Longrightarrow> header_loop render ws mc c P =
     header_loop render (put_cell ws 2 c CNone) mc (c + 4) (header_step render ws c P)"
  by (subst header_loop_step) simp

lemma header_loop_done: "\<not> c \<le> mc \<Longrightarrow> header_loop render ws mc c P = (P, ws)"
  by (subst header_loop_step) simp

lemma header_loop_sound:
  "map_of (fst (header_loop render ws mc c P)) k = Some (c1, t1) \<Longrightarrow>
   map_of P k = Some (c1, t1) \<or>
   (c \<le> c1 \<and> c1 \<le> mc \<and> c1 mod 4 = c mod 4 \<and> header_text render ws c1 = Some t1 \<and> norm_name t1 = k)"
proof (induction "Suc mc - c" arbitrary: c ws P rule: less_induct)
  case less
  show ?case
  proof (cases "c \<le> mc")
    case False
    with less.prems show ?thesis by (simp add: header_loop_done)
  next
    case True
    let ?ws = "put_cell ws 2 c CNone" and ?P = "header_step render ws c P"
    from True less.prems have res: "map_of (fst (header_loop render ?ws mc (c + 4) ?P)) k = Some (c1, t1)"
      by (simp add: header_loop_unfold)
    from True have "Suc mc - (c + 4) < Suc mc - c" by simp
    from less.hyps[OF this res]
    consider (old) "map_of ?P k = Some (c1, t1)"
      | (new) "c + 4 \<le> c1" "c1 \<le> mc" "c1 mod 4 = (c + 4) mod 4"
          "header_text render ?ws c1 = Some t1" "norm_name t1 = k"
      by blast
    then show ?thesis
    proof cases
      case old
      show ?thesis
      proof (cases "header_text render ws c")
        case None
        with old show ?thesis by (simp add: map_of_header_step)
      next
        case (Some tx)
        show ?thesis
        proof (cases "k = norm_name tx")
          case True
          with old Some have "c1 = c" "t1 = tx" by (simp_all add: map_of_header_step)
          with Some True \<open>c \<le> mc\<close> show ?thesis by simp
        next
          case False
          with old Some show ?thesis by (simp add: map_of_header_step)
        qed
      qed
    next
      case new
      then show ?thesis by simp
    qed
  qed
qed

lemma header_loop_persist:
  "map_of P k = Some (c0, t0) \<Longrightarrow>
   \<exists>c2 t2. map_of (fst (header_loop render ws mc c P)) k = Some (c2, t2) \<and> (c2 = c0 \<or> c \<le> c2)"
proof (induction "Suc mc - c" arbitrary: c ws P c0 t0 rule: less_induct)
  case less
  show ?case
  proof (cases "c \<le> mc")
    case False
    with less.prems show ?thesis by (simp add: header_loop_done)
  next
    case True
    let ?ws = "put_cell ws 2 c CNone" and ?P = "header_step render ws c P"
    from True have m: "Suc mc - (c + 4) < Suc mc - c" by simp
    have "\<exists>c' t'. map_of ?P k = Some (c', t') \<and> (c' = c0 \<or> c' = c)"
      using less.prems by (cases "header_text render ws c") (simp_all add: map_of_header_step)
    then obtain c' t' where P': "map_of ?P k = Some (c', t')" and c': "c' = c0 \<or> c' = c"
      by blast
    from less.hyps[OF m P']
    have "\<exists>c2 t2. map_of (fst (header_loop render ?ws mc (c + 4) ?P)) k = Some (c2, t2) \<and>
            (c2 = c' \<or> c + 4 \<le> c2)" .
    then obtain c2 t2 where r: "map_of (fst (header_loop render ?ws mc (c + 4) ?P)) k = Some (c2, t2)"
      and c2: "c2 = c' \<or> c + 4 \<le> c2" by blast
    from c2 c' have "c2 = c0 \<or> c \<le> c2" by linarith
    with r show ?thesis by (simp add: header_loop_unfold[OF True])
  qed
qed

lemma header_loop_complete:
  "c \<le> c1 \<Longrightarrow> c1 \<le> mc \<Longrightarrow> c1 mod 4 = c mod 4 \<Longrightarrow> header_text render ws c1 = Some t1 \<Longrightarrow>
   \<exists>c2 t2. map_of (fst (header_loop render ws mc c P)) (norm_name t1) = Some (c2, t2) \<and> c1 \<le> c2"
proof (induction "Suc mc - c" arbitrary: c ws P rule: less_induct)
  case less
  let ?ws = "put_cell ws 2 c CNone" and ?P = "header_step render ws c P"
  from less.prems have cm: "c \<le> mc" by simp
  then have m: "Suc mc - (c + 4) < Suc mc - c" by simp
  show ?case
  proof (cases "c1 = c")
    case True
    with less.prems have "map_of ?P (norm_name t1) = Some (c, t1)"
      by (simp add: map_of_header_step)
    from header_loop_persist[OF this, where render = render and ws = ?ws and mc = mc and c = "c + 4"]
    obtain c2 t2 where r: "map_of (fst (header_loop render ?ws mc (c + 4) ?P)) (norm_name t1) = Some (c2, t2)"
      and "c2 = c \<or> c + 4 \<le> c2" by blast
    then have "c1 \<le> c2" using True by linarith
    with r show ?thesis by (simp add: header_loop_unfold[OF cm])
  next
    case False
    with less.prems(1,3) have a: "c + 4 \<le> c1" by (intro stride_next)
    from less.prems have b: "c1 mod 4 = (c + 4) mod 4" by simp
    from less.prems have d: "header_text render ?ws c1 = Some t1" by simp
    from less.hyps[OF m a less.prems(2) b d]
    have "\<exists>c2 t2. map_of (fst (header_loop render ?ws mc (c + 4) ?P)) (norm_name t1) = Some (c2, t2) \<and> c1 \<le> c2" .
    then show ?thesis by (simp add: header_loop_unfold[OF cm])
  qed
qed

lemma set_update_cases:
  "x \<in> set (AList.update k v P) \<Longrightarrow> x = (k, v) \<or> x \<in> set P"
  by (induction P) (auto split: if_splits)

lemma distinct_update_anchor:
  "distinct (map (\<lambda>(k, c, t). c) P) \<Longrightarrow> \<forall>(k', c', t') \<in> set P. c' \<noteq> c \<Longrightarrow>
   distinct (map (\<lambda>(k, c, t). c) (AList.update k (c, t) P))"
  by (induction P) (auto simp: image_iff dest!: set_update_cases)

lemma header_loop_inv:
  assumes "distinct (map fst P)" and "distinct (map (\<lambda>(k, c, t). c) P)"
    and "\<forall>(k', c', t') \<in> set P. c' mod 4 = 2 \<and> c' < c" and "c mod 4 = 2"
  shows "distinct (map fst (fst (header_loop render ws mc c P))) \<and>
         distinct (map (\<lambda>(k, c, t). c) (fst (header_loop render ws mc c P))) \<and>
         (\<forall>(k', c', t') \<in> set (fst (header_loop render ws mc c P)). c' mod 4 = 2)"
  using assms
proof (induction "Suc mc - c" arbitrary: c ws P rule: less_induct)
  case less
  show ?case
  proof (cases "c \<le> mc")
    case False
    with less.prems show ?thesis by (auto simp: header_loop_done)
  next
    case True
    let ?ws = "put_cell ws 2 c CNone" and ?P = "header_step render ws c P"
    from True have m: "Suc mc - (c + 4) < Suc mc - c" by simp
    have d1: "distinct (map fst ?P)"
      using less.prems(1) by (auto simp: header_step_def distinct_update split: option.splits)
    have fresh: "\<forall>(k', c', t') \<in> set P. c' \<noteq> c" using less.prems(3) by auto
    have d2: "distinct (map (\<lambda>(k, c, t). c) ?P)"
      using less.prems(2) distinct_update_anchor[OF less.prems(2) fresh]
      by (auto simp: header_step_def split: option.splits)
    have d3: "\<forall>(k', c', t') \<in> set ?P. c' mod 4 = 2 \<and> c' < c + 4"
    proof (clarify)
      fix k' c' t' assume "(k', c', t') \<in> set ?P"
      then have "(k', c', t') \<in> set P \<or> c' = c"
        by (auto simp: header_step_def split: option.splits dest: set_update_cases)
      with less.prems(3,4) show "c' mod 4 = 2 \<and> c' < c + 4" by auto
    qed
    from less.prems(4) have d4: "(c + 4) mod 4 = 2" by simp
    from less.hyps[OF m d1 d2 d3 d4] show ?thesis
      by (simp add: header_loop_unfold[OF True])
  qed
qed

lemma digits_of_range: "c \<in> set (digits_of n) \<Longrightarrow> 48 \<le> c \<and> c \<le> 57"
proof (induction n rule: digits_of.induct)
  case (1 n)
  show ?case
  proof (cases "n < 10")
    case True
    with "1.prems" show ?thesis by (subst (asm) digits_of.simps) auto
  next
    case False
    with "1.prems" have "c \<in> set (digits_of (n div 10)) \<or> c = 48 + n mod 10"
      by (subst (asm) digits_of.simps) auto
    then show ?thesis
    proof
      assume "c \<in> set (digits_of (n div 10))"
      with "1.IH"[OF False] show ?thesis .
    next
      assume "c = 48 + n mod 10"
      moreover have "n mod 10 < 10" by simp
      ultimately show ?thesis by linarith
    qed
  qed
qed

lemma digits_of_nonempty: "digits_of n \<noteq> []"
  by (subst digits_of.simps) simp

lemma dec_nat_snoc: "dec_nat (xs @ [c]) = 10 * dec_nat xs + (c - 48)"
  by (simp add: dec_nat_def)

lemma dec_nat_digits_of: "dec_nat (digits_of n) = n"
proof (induction n rule: digits_of.induct)
  case (1 n)
  show ?case
  proof (cases "n < 10")
    case True
    then show ?thesis by (subst digits_of.simps) (simp add: dec_nat_def)
  next
    case False
    with "1.IH" have "dec_nat (digits_of (n div 10)) = n div 10" by simp
    with False show ?thesis by (subst digits_of.simps) (simp add: dec_nat_snoc)
  qed
qed

lemma dec_int_str_int: "dec_int (str_int i) = i"
proof (cases "i < 0")
  case True
  then show ?thesis by (simp add: str_int_def dec_int_def dec_nat_digits_of)
next
  case False
  obtain c cs where d: "digits_of (nat i) = c # cs"
    using digits_of_nonempty[of "nat i"] by (cases "digits_of (nat i)") auto
  then have "c \<in> set (digits_of (nat i))" by simp
  then have "c \<noteq> 45" using digits_of_range by fastforce
  with False d dec_nat_digits_of[of "nat i"] show ?thesis
    by (simp add: str_int_def dec_int_def)
qed

lemma str_int_no_plus: "43 \<notin> set (str_int i)"
proof
  assume "43 \<in> set (str_int i)"
  then have "43 \<in> set (digits_of (nat (- i))) \<or> 43 \<in> set (digits_of (nat i))"
    by (auto simp: str_int_def split: if_splits)
  then show False using digits_of_range[of 43] by auto
qed

lemma split_on_nonempty: "split_on sep s \<noteq> []"
  by (induction s) (auto split: list.splits)

lemma split_on_no_sep: "sep \<notin> set x \<Longrightarrow> split_on sep x = [x]"
  by (induction x) auto

lemma split_on_append:
  "sep \<notin> set x \<Longrightarrow> split_on sep (x @ sep # rest) = x # split_on sep rest"
  by (induction x) auto

lemma split_on_join:
  "xs \<noteq> [] \<Longrightarrow> \<forall>x \<in> set xs. sep \<notin> set x \<Longrightarrow> split_on sep (join [sep] xs) = xs"
proof (induction xs)
  case Nil
  then show ?case by simp
next
  case (Cons x xs)
  show ?case
  proof (cases xs)
    case Nil
    with Cons.prems show ?thesis by (simp add: split_on_no_sep)
  next
    case (Cons y ys)
    with Cons.IH Cons.prems have "split_on sep (join [sep] (y # ys)) = y # ys" by simp
    with Cons Cons.prems show ?thesis by (simp add: split_on_append)
  qed
qed

lemma formula_operands_volume:
  "vs \<noteq> [] \<Longrightarrow> formula_operands ([61] @ join [43] (map str_int vs)) = vs"
proof -
  assume "vs \<noteq> []"
  then have "split_on 43 (join [43] (map str_int vs)) = map str_int vs"
    by (intro split_on_join) (auto simp: str_int_no_plus)
  then show ?thesis
    by (simp add: formula_operands_def comp_def dec_int_str_int)
qed

lemma read_positions_inv:
  "distinct (map fst (fst (read_company_header_positions render ws0))) \<and>
   distinct (map (\<lambda>(k, c, t). c) (fst (read_company_header_positions render ws0))) \<and>
   (\<forall>(k, c, t) \<in> set (fst (read_company_header_positions render ws0)). c mod 4 = 2)"
  unfolding read_company_header_positions_def
  by (rule header_loop_inv) simp_all

lemma read_positions_anchor_ge:
  "(k, c, t) \<in> set (fst (read_company_header_positions render ws0)) \<Longrightarrow> 1 \<le> c"
proof -
  assume "(k, c, t) \<in> set (fst (read_company_header_positions render ws0))"
  with read_positions_inv[of render ws0] have "c mod 4 = 2" by auto
  then show ?thesis by (cases c) auto
qed

lemma read_positions_sound:
  assumes "(k, c, t) \<in> set (fst (read_company_header_positions render ws0))"
  shows "map_of (fst (read_company_header_positions render ws0)) k = Some (c, t) \<and>
         2 \<le> c \<and> c \<le> ws_max_column ws0 \<and> c mod 4 = 2 \<and>
         header_text render ws0 c = Some t \<and> norm_name t = k"
proof -
  from read_positions_inv[of render ws0] assms
  have m: "map_of (fst (read_company_header_positions render ws0)) k = Some (c, t)"
    by (simp add: map_of_eq_Some_iff)
  from header_loop_sound[OF m[unfolded read_company_header_positions_def]] m
  show ?thesis by simp
qed

lemma fill_row_read_ok:
  "1 \<le> row_idx \<Longrightarrow>
   \<exists>ws'. fill_row ws row_idx (fst (read_company_header_positions render ws0)) trades d = Inr ws'"
  by (rule fill_row_total) (auto dest: read_positions_anchor_ge)

section \<open>Claims about fill_row and the header map\<close>

lemma demo_positions:
  "fst (read_company_header_positions (\<lambda>v. []) [((2, 2), CStr [65])]) = [(norm_name [65], 2, [65])]"
  by (simp add: read_company_header_positions_def ws_max_column_def header_loop_done
      header_loop_unfold header_step_def header_text_def cell_value_def truthy_def str_cell_def
      strip_def is_space_def)

text \<open>
  Claim C5. For every company of the header map read from row 2 that has a trade group,
  \<open>fill_row\<close> succeeds (for a row index of at least 1) and leaves in the cell at anchor+1:
  the bare integer when the group has exactly one volume; when it has more than one, the
  text \<open>=v1+v2+...\<close> built from the volumes in encounter order, whose operands, read back
  from the text, are exactly the group's volumes in that order.
\<close>

theorem fill_row_volume_cell:
  assumes "(comp_norm, anchor, hdr) \<in> set (fst (read_company_header_positions render ws0))"
    and "map_of trades comp_norm = Some data"
    and "1 \<le> row_idx"
  shows "\<exists>ws'. fill_row ws row_idx (fst (read_company_header_positions render ws0)) trades date_obj = Inr ws' \<and>
           (\<forall>v. volumes data = [v] \<longrightarrow> cell_value ws' row_idx (anchor + 1) = CInt v) \<and>
           (1 < length (volumes data) \<longrightarrow>
              (\<exists>f. cell_value ws' row_idx (anchor + 1) = CStr f \<and>
                   f = [61] @ join [43] (map str_int (volumes data)) \<and>
                   formula_operands f = volumes data))"
proof -
  let ?hp = "fst (read_company_header_positions render ws0)"
  from fill_row_read_ok[OF assms(3)] obtain ws'
    where run: "fill_row ws row_idx ?hp trades date_obj = Inr ws'" by blast
  from read_positions_inv[of render ws0]
  have al: "\<forall>(k, c, t) \<in> set ?hp. c mod 4 = 2" and di: "distinct (map (\<lambda>(k, c, t). c) ?hp)"
    by simp_all
  have cellv: "cell_value ws' row_idx (anchor + 1) =
          item_cell trades date_obj comp_norm 1 (cell_value ws row_idx (anchor + 1))"
    by (rule fill_row_block[OF al di assms(1) run]) simp
  have one: "cell_value ws' row_idx (anchor + 1) = CInt v" if "volumes data = [v]" for v
    using cellv that assms(2) by (simp add: item_cell_def volume_formula_def)
  have many: "\<exists>f. cell_value ws' row_idx (anchor + 1) = CStr f \<and>
                   f = [61] @ join [43] (map str_int (volumes data)) \<and>
                   formula_operands f = volumes data" if "1 < length (volumes data)"
  proof -
    from that have ne: "volumes data \<noteq> []" and n1: "length (volumes data) \<noteq> 1" by auto
    from cellv assms(2) ne n1
    have "cell_value ws' row_idx (anchor + 1) = CStr ([61] @ join [43] (map str_int (volumes data)))"
      by (simp add: item_cell_def volume_formula_def)
    with formula_operands_volume[OF ne] show ?thesis by blast
  qed
  from run one many show ?thesis by blast
qed

theorem fill_row_volume_cell_witness:
  "\<exists>ws'. fill_row [] 3 (fst (read_company_header_positions (\<lambda>v. []) [((2, 2), CStr [65])]))
            [(norm_name [65], \<lparr>volumes = [100, 250, 75], prices = []\<rparr>)] (Date 2024 1 2) = Inr ws' \<and>
         cell_value ws' 3 3 = CStr [61, 49, 48, 48, 43, 50, 53, 48, 43, 55, 53] \<and>
         formula_operands [61, 49, 48, 48, 43, 50, 53, 48, 43, 55, 53] = [100, 250, 75]"
proof -
  have mem: "(norm_name [65], 2, [65]) \<in> set (fst (read_company_header_positions (\<lambda>v. []) [((2, 2), CStr [65])]))"
    by (simp add: demo_positions)
  have tr: "map_of [(norm_name [65], \<lparr>volumes = [100, 250, 75], prices = []\<rparr>)] (norm_name [65])
            = Some \<lparr>volumes = [100, 250, 75], prices = []\<rparr>" by simp
  have d: "[61] @ join [43] (map str_int [100, 250, 75]) = [61, 49, 48, 48, 43, 50, 53, 48, 43, 55, 53]"
    by (simp add: str_int_def digits_of.simps)
  from fill_row_volume_cell[OF mem tr, of 3 "[]" "Date 2024 1 2"] d
  show ?thesis by auto
qed

lemma fill_row_trades_cong:
  "\<forall>k \<in> fst ` set hp. map_of trades' k = map_of trades k \<Longrightarrow>
   fill_row ws row hp trades' d = fill_row ws row hp trades d"
proof (induction hp arbitrary: ws)
  case Nil
  then show ?case by simp
next
  case (Cons item hp)
  obtain k c t where item: "item = (k, c, t)" by (cases item) auto
  from Cons.prems have k: "map_of trades' k = map_of trades k"
    and rest: "\<forall>k \<in> fst ` set hp. map_of trades' k = map_of trades k"
    by (auto simp: item)
  show ?case
    by (simp add: item k Cons.IH[OF rest] split: sum.splits option.splits)
qed

text \<open>
  Claim C8. For the header map read from row 2 and a row index of at least 1, \<open>fill_row\<close>
  succeeds and: the anchor cell of every company of the header map holds the date (at
  midnight), whether the company has trades or not; for a company without a trade group
  the cells at anchor+1, anchor+2 and anchor+3 keep the value they had; a trade group of a
  company that is not in the header map does not change the result at all; and every cell
  whose value changes lies in row \<open>row_idx\<close> inside the four-column block of a company of
  the header map.
\<close>

theorem fill_row_frame_effect:
  assumes "1 \<le> row_idx"
  shows "\<exists>ws'. fill_row ws row_idx (fst (read_company_header_positions render ws0)) trades date_obj = Inr ws' \<and>
           (\<forall>(comp_norm, anchor, hdr) \<in> set (fst (read_company_header_positions render ws0)).
              cell_value ws' row_idx anchor = CDateTime date_obj 0 \<and>
              (map_of trades comp_norm = None \<longrightarrow>
                 cell_value ws' row_idx (anchor + 1) = cell_value ws row_idx (anchor + 1) \<and>
                 cell_value ws' row_idx (anchor + 2) = cell_value ws row_idx (anchor + 2) \<and>
                 cell_value ws' row_idx (anchor + 3) = cell_value ws row_idx (anchor + 3))) \<and>
           (\<forall>company data. company \<notin> fst ` set (fst (read_company_header_positions render ws0)) \<longrightarrow>
              fill_row ws row_idx (fst (read_company_header_positions render ws0))
                (AList.update company data trades) date_obj = Inr ws') \<and>
           (\<forall>r col. cell_value ws' r col \<noteq> cell_value ws r col \<longrightarrow>
              r = row_idx \<and> (\<exists>(comp_norm, anchor, hdr) \<in> set (fst (read_company_header_positions render ws0)).
                               anchor \<le> col \<and> col \<le> anchor + 3))"
proof -
  let ?hp = "fst (read_company_header_positions render ws0)"
  from fill_row_read_ok[OF assms] obtain ws'
    where run: "fill_row ws row_idx ?hp trades date_obj = Inr ws'" by blast
  from read_positions_inv[of render ws0]
  have al: "\<forall>(k, c, t) \<in> set ?hp. c mod 4 = 2" and di: "distinct (map (\<lambda>(k, c, t). c) ?hp)"
    by simp_all
  have blk: "cell_value ws' row_idx (anchor + off) =
          item_cell trades date_obj k off (cell_value ws row_idx (anchor + off))"
    if "(k, anchor, hdr) \<in> set ?hp" "off \<le> 3" for k anchor hdr off
    by (rule fill_row_block[OF al di that(1) run that(2)])
  have a: "cell_value ws' row_idx anchor = CDateTime date_obj 0 \<and>
              (map_of trades k = None \<longrightarrow>
                 cell_value ws' row_idx (anchor + 1) = cell_value ws row_idx (anchor + 1) \<and>
                 cell_value ws' row_idx (anchor + 2) = cell_value ws row_idx (anchor + 2) \<and>
                 cell_value ws' row_idx (anchor + 3) = cell_value ws row_idx (anchor + 3))"
    if mem: "(k, anchor, hdr) \<in> set ?hp" for k anchor hdr
    using blk[OF mem, of 0] blk[OF mem, of 1] blk[OF mem, of 2] blk[OF mem, of 3]
    by (simp add: item_cell_def)
  have b: "fill_row ws row_idx ?hp (AList.update company data trades) date_obj = Inr ws'"
    if "company \<notin> fst ` set ?hp" for company data
  proof -
    have "\<forall>k \<in> fst ` set ?hp. map_of (AList.update company data trades) k = map_of trades k"
      using that by (auto simp: update_conv')
    from fill_row_trades_cong[OF this] run show ?thesis by simp
  qed
  have c: "r = row_idx \<and> (\<exists>(comp_norm, anchor, hdr) \<in> set ?hp. anchor \<le> col \<and> col \<le> anchor + 3)"
    if ne: "cell_value ws' r col \<noteq> cell_value ws r col" for r col
  proof (rule ccontr)
    assume "\<not> (r = row_idx \<and> (\<exists>(comp_norm, anchor, hdr) \<in> set ?hp. anchor \<le> col \<and> col \<le> anchor + 3))"
    then have "r \<noteq> row_idx \<or> (\<forall>(k, c, t) \<in> set ?hp. col < c \<or> c + 3 < col)"
      by (auto simp: not_le)
    from fill_row_frame[OF run this] ne show False by simp
  qed
  from run a b c show ?thesis by blast
qed


theorem fill_row_frame_effect_witness:
  "(1::nat) \<le> 3 \<and>
   (\<exists>ws'. fill_row [((3, 3), CInt 7)] 3 (fst (read_company_header_positions (\<lambda>v. []) [((2, 2), CStr [65])]))
             [] (Date 2024 1 2) = Inr ws' \<and>
          cell_value ws' 3 2 = CDateTime (Date 2024 1 2) 0 \<and> cell_value ws' 3 3 = CInt 7 \<and>
          fill_row [((3, 3), CInt 7)] 3 (fst (read_company_header_positions (\<lambda>v. []) [((2, 2), CStr [65])]))
             (AList.update (40 # norm_name [65]) \<lparr>volumes = [5], prices = []\<rparr> []) (Date 2024 1 2) = Inr ws')"
proof -
  have h: "(1::nat) \<le> 3" by simp
  have ne: "40 # norm_name [65] \<notin> fst ` set [(norm_name [65], 2::nat, [65::nat])]" by simp
  from fill_row_frame_effect[OF h, of "[((3, 3), CInt 7)]" "\<lambda>v. []" "[((2, 2), CStr [65])]" "[]" "Date 2024 1 2"]
  obtain ws' where
    run: "fill_row [((3, 3), CInt 7)] 3 [(norm_name [65], 2, [65])] [] (Date 2024 1 2) = Inr ws'"
    and a: "cell_value ws' 3 2 = CDateTime (Date 2024 1 2) 0" "cell_value ws' 3 3 = cell_value [((3, 3), CInt 7)] 3 3"
    and b: "\<forall>company data. company \<notin> fst ` set [(norm_name [65], 2::nat, [65::nat])] \<longrightarrow>
              fill_row [((3, 3), CInt 7)] 3 [(norm_name [65], 2, [65])]
                (AList.update company data []) (Date 2024 1 2) = Inr ws'"
    unfolding demo_positions by auto
  from b ne have "fill_row [((3, 3), CInt 7)] 3 [(norm_name [65], 2, [65])]
                (AList.update (40 # norm_name [65]) \<lparr>volumes = [5], prices = []\<rparr> []) (Date 2024 1 2) = Inr ws'"
    by blast
  with run a h show ?thesis unfolding demo_positions by (auto simp: cell_value_def)
qed

lemma read_positions_complete:
  assumes "c1 \<le> ws_max_column ws0" "c1 mod 4 = 2" "header_text render ws0 c1 = Some t1"
  shows "\<exists>c2 t2. map_of (fst (read_company_header_positions render ws0)) (norm_name t1) = Some (c2, t2) \<and> c1 \<le> c2"
proof -
  from assms(2) have "2 \<le> c1" by (cases c1; cases "c1 - 1") auto
  moreover from assms(2) have "c1 mod 4 = 2 mod 4" by simp
  ultimately show ?thesis
    unfolding read_company_header_positions_def
    using assms(1,3) by (intro header_loop_complete)
qed

lemma map_of_mem: "map_of xs k = Some v \<Longrightarrow> (k, v) \<in> set xs"
  by (rule map_of_SomeD)

lemma collision_positions:
  "fst (read_company_header_positions (\<lambda>v. []) [((2, 2), CStr [65]), ((2, 6), CStr [65])])
     = [(norm_name [65], 6, [65])]"
  by (simp add: read_company_header_positions_def ws_max_column_def header_loop_done
      header_loop_unfold header_step_def header_text_def cell_value_def truthy_def str_cell_def
      strip_def is_space_def put_cell_def)

text \<open>
  Claim C10. When two non-empty header cells of row 2, at stride-4 columns \<open>c1 < c2\<close>,
  normalise to the same key, the map returned by \<open>read_company_header_positions\<close> has
  pairwise distinct keys and holds for that key one entry only, the one of the rightmost
  column whose header normalises to the key; no entry of the map has anchor \<open>c1\<close>, and
  \<open>fill_row\<close> leaves the four cells of the block at \<open>c1\<close> as they were, so the trades of
  the name go to the rightmost block only.
\<close>

theorem header_collision_keeps_rightmost:
  assumes "c1 < c2" and "c2 \<le> ws_max_column ws0" and "c1 mod 4 = 2" and "c2 mod 4 = 2"
    and "header_text render ws0 c1 = Some t1" and "header_text render ws0 c2 = Some t2"
    and "norm_name t1 = norm_name t2"
  shows "distinct (map fst (fst (read_company_header_positions render ws0))) \<and>
         (\<exists>c t. map_of (fst (read_company_header_positions render ws0)) (norm_name t1) = Some (c, t) \<and>
                c2 \<le> c \<and> c \<le> ws_max_column ws0 \<and> c mod 4 = 2 \<and>
                header_text render ws0 c = Some t \<and> norm_name t = norm_name t1 \<and>
                (\<forall>c' t'. c < c' \<and> c' \<le> ws_max_column ws0 \<and> c' mod 4 = 2 \<and>
                         header_text render ws0 c' = Some t' \<longrightarrow> norm_name t' \<noteq> norm_name t1)) \<and>
         (\<forall>k t. (k, c1, t) \<notin> set (fst (read_company_header_positions render ws0))) \<and>
         (\<forall>ws row_idx trades date_obj ws' off.
            fill_row ws row_idx (fst (read_company_header_positions render ws0)) trades date_obj = Inr ws' \<and> off \<le> 3
            \<longrightarrow> cell_value ws' row_idx (c1 + off) = cell_value ws row_idx (c1 + off))"
proof -
  let ?hp = "fst (read_company_header_positions render ws0)"
  let ?k = "norm_name t1"
  from read_positions_inv[of render ws0]
  have dk: "distinct (map fst ?hp)" and al: "\<forall>(k, c, t) \<in> set ?hp. c mod 4 = 2" by simp_all
  from read_positions_complete[OF assms(2,4,6)] assms(7)
  obtain c t where ent: "map_of ?hp ?k = Some (c, t)" and ge: "c2 \<le> c" by auto
  from read_positions_sound[OF map_of_mem[OF ent]]
  have props: "c \<le> ws_max_column ws0" "c mod 4 = 2" "header_text render ws0 c = Some t" "norm_name t = ?k"
    by simp_all
  have right: "norm_name t' \<noteq> ?k"
    if "c < c'" "c' \<le> ws_max_column ws0" "c' mod 4 = 2" "header_text render ws0 c' = Some t'" for c' t'
  proof
    assume "norm_name t' = ?k"
    with read_positions_complete[OF that(2,3,4)] ent have "c' \<le> c" by auto
    with that(1) show False by simp
  qed
  have shadow: "(k, c1, t') \<notin> set ?hp" for k t'
  proof
    assume mem: "(k, c1, t') \<in> set ?hp"
    from read_positions_sound[OF mem]
    have m: "map_of ?hp k = Some (c1, t')" and "header_text render ws0 c1 = Some t'" "norm_name t' = k"
      by simp_all
    with assms(5) have "k = ?k" by simp
    with m ent have "c1 = c" by simp
    with ge assms(1) show False by simp
  qed
  have frame: "cell_value ws' row_idx (c1 + off) = cell_value ws row_idx (c1 + off)"
    if run: "fill_row ws row_idx ?hp trades date_obj = Inr ws'" and off: "off \<le> 3"
    for ws row_idx trades date_obj ws' off
  proof -
    have "\<forall>(k, a, t) \<in> set ?hp. c1 + off < a \<or> a + 3 < c1 + off"
    proof (clarify)
      fix k a t' assume mem: "(k, a, t') \<in> set ?hp" and n: "\<not> a + 3 < c1 + off"
      from mem al have "a mod 4 = 2" by auto
      moreover from mem shadow have "a \<noteq> c1" by auto
      ultimately show "c1 + off < a"
        using blocks_apart[OF assms(3) _ _ off, of a] n by blast
    qed
    with fill_row_frame[OF run, of row_idx "c1 + off"] show ?thesis by blast
  qed
  from dk ent ge props right shadow frame show ?thesis by blast
qed

theorem header_collision_keeps_rightmost_witness:
  "(2::nat) < 6 \<and> 6 \<le> ws_max_column [((2, 2), CStr [65]), ((2, 6), CStr [65])] \<and>
   header_text (\<lambda>v. []) [((2, 2), CStr [65]), ((2, 6), CStr [65])] 2 = Some [65] \<and>
   header_text (\<lambda>v. []) [((2, 2), CStr [65]), ((2, 6), CStr [65])] 6 = Some [65] \<and>
   map_of (fst (read_company_header_positions (\<lambda>v. []) [((2, 2), CStr [65]), ((2, 6), CStr [65])]))
     (norm_name [65]) = Some (6, [65]) \<and>
   (\<forall>k t. (k, 2, t) \<notin> set (fst (read_company_header_positions (\<lambda>v. []) [((2, 2), CStr [65]), ((2, 6), CStr [65])])))"
proof -
  let ?ws = "[((2, 2), CStr [65]), ((2, 6), CStr [65])] :: worksheet"
  have h1: "(2::nat) < 6" and h3: "(2::nat) mod 4 = 2" and h4: "(6::nat) mod 4 = 2" by simp_all
  have h2: "6 \<le> ws_max_column ?ws" by (simp add: ws_max_column_def)
  have h5: "header_text (\<lambda>v. []) ?ws 2 = Some [65]"
    by (simp add: header_text_def cell_value_def truthy_def str_cell_def strip_def is_space_def)
  have h6: "header_text (\<lambda>v. []) ?ws 6 = Some [65]"
    by (simp add: header_text_def cell_value_def truthy_def str_cell_def strip_def is_space_def)
  from header_collision_keeps_rightmost[OF h1 h2 h3 h4 h5 h6 refl]
  have "\<forall>k t. (k, 2, t) \<notin> set (fst (read_company_header_positions (\<lambda>v. []) ?ws))"
    by blast
  with h1 h2 h5 h6 show ?thesis by (simp add: collision_positions)
qed

section \<open>Claims about find_or_create_date_row\<close>

lemma Max_insert_max:
  fixes S :: "nat set"
  assumes "finite S"
  shows "Max (insert (max r a) S) = Max (insert a (insert r S))"
proof (cases "S = {}")
  case True
  then show ?thesis by (simp add: max.commute)
next
  case False
  with assms show ?thesis by (simp add: max.assoc max.commute max.left_commute)
qed

lemma fold_max_row:
  fixes ws :: worksheet
  shows "fold (\<lambda>((r, c), v) m. max r m) ws a = Max (insert a (fst ` fst ` set ws))"
proof (induction ws arbitrary: a)
  case Nil
  then show ?case by simp
next
  case (Cons x ws)
  obtain r c v where x: "x = ((r, c), v)" by (cases x) auto
  have "fold (\<lambda>((r, c), v) m. max r m) (x # ws) a = Max (insert (max r a) (fst ` fst ` set ws))"
    by (simp add: x Cons.IH)
  also have "\<dots> = Max (insert a (insert r (fst ` fst ` set ws)))"
    by (rule Max_insert_max) simp
  finally show ?case by (simp add: x)
qed

lemma ws_max_row_Max: "ws_max_row ws = Max (insert 1 (fst ` fst ` set ws))"
  by (simp add: ws_max_row_def fold_max_row)

lemma keys_put_cell: "fst ` set (put_cell ws r c v) = insert (r, c) (fst ` set ws)"
proof (cases "v = CNone")
  case True
  show ?thesis
  proof (cases "map_of ws (r, c)")
    case None
    with True show ?thesis by (simp add: put_cell_def)
  next
    case (Some a)
    then have "(r, c) \<in> fst ` set ws"
      by (metis map_of_eq_None_iff option.distinct(1))
    with True Some show ?thesis by (auto simp: put_cell_def)
  qed
next
  case False
  have "set (map fst (AList.update (r, c) v ws)) = insert (r, c) (set (map fst ws))"
    by (auto simp: update_keys)
  with False show ?thesis by (simp add: put_cell_def)
qed

lemma ws_max_row_put_cell: "ws_max_row (put_cell ws r c v) = max r (ws_max_row ws)"
proof -
  have "ws_max_row (put_cell ws r c v) = Max (insert 1 (insert r (fst ` fst ` set ws)))"
    by (simp only: ws_max_row_Max keys_put_cell image_insert fst_conv)
  also have "\<dots> = Max (insert r (insert 1 (fst ` fst ` set ws)))"
    by (simp add: insert_commute)
  also have "\<dots> = max r (Max (insert 1 (fst ` fst ` set ws)))"
    by (rule Max_insert) simp_all
  finally show ?thesis by (simp only: ws_max_row_Max)
qed

lemma ws_max_row_ge1: "1 \<le> ws_max_row ws"
  by (simp add: ws_max_row_Max)

lemma scan_dates_values:
  "cell_value (fst (scan_dates lenient ws d rs)) r c = cell_value ws r c"
  by (induction rs arbitrary: ws) (simp_all add: Let_def map_of_put_cell_None split: option.splits)

lemma scan_dates_max_row:
  "\<forall>r \<in> set rs. r \<le> ws_max_row ws \<Longrightarrow> ws_max_row (fst (scan_dates lenient ws d rs)) = ws_max_row ws"
proof (induction rs arbitrary: ws)
  case Nil
  then show ?case by simp
next
  case (Cons r rs)
  from Cons.prems have m: "ws_max_row (put_cell ws r c CNone) = ws_max_row ws" for c
    by (simp add: ws_max_row_put_cell max_def)
  with Cons.prems have "\<forall>r' \<in> set rs. r' \<le> ws_max_row (put_cell ws r c CNone)" for c by simp
  from Cons.IH[OF this] m show ?case
    by (simp add: Let_def split: option.splits)
qed

lemma scan_dates_result:
  "snd (scan_dates lenient ws d rs) = List.find (\<lambda>r. date_matches lenient d (cell_value ws r 1)) rs"
proof (induction rs arbitrary: ws)
  case Nil
  then show ?case by simp
next
  case (Cons r rs)
  show ?case
    by (simp add: Let_def Cons.IH map_of_put_cell_None date_matches_def split: option.splits)
qed

lemma find_or_create_eq:
  "find_or_create_date_row lenient ws d =
     (case List.find (\<lambda>r. date_matches lenient d (cell_value ws r 1)) [3..<ws_max_row ws + 1] of
        Some r \<Rightarrow> (r, fst (scan_dates lenient ws d [3..<ws_max_row ws + 1]))
      | None \<Rightarrow> (ws_max_row ws + 1,
                  put_cell (fst (scan_dates lenient ws d [3..<ws_max_row ws + 1])) (ws_max_row ws + 1) 1
                    (CDateTime d 0)))"
proof -
  have ne: "ws_max_row ws \<noteq> 0" using ws_max_row_ge1[of ws] by simp
  obtain w x where sc: "scan_dates lenient ws d [3..<ws_max_row ws + 1] = (w, x)"
    by (cases "scan_dates lenient ws d [3..<ws_max_row ws + 1]") auto
  from scan_dates_result[of lenient ws d "[3..<ws_max_row ws + 1]"] sc
  have "List.find (\<lambda>r. date_matches lenient d (cell_value ws r 1)) [3..<ws_max_row ws + 1] = x"
    by simp
  with sc ne show ?thesis
    by (simp add: find_or_create_date_row_def Let_def split: option.splits)
qed

lemma find_app:
  "List.find P (xs @ ys) = (case List.find P xs of None \<Rightarrow> List.find P ys | Some x \<Rightarrow> Some x)"
  by (induction xs) simp_all

lemma find_or_create_twice:
  assumes "2 \<le> ws_max_row ws"
  shows "fst (find_or_create_date_row lenient (snd (find_or_create_date_row lenient ws d)) d)
           = fst (find_or_create_date_row lenient ws d) \<and>
         ws_max_row (snd (find_or_create_date_row lenient (snd (find_or_create_date_row lenient ws d)) d))
           \<le> ws_max_row ws + 1"
proof -
  let ?m = "ws_max_row ws"
  let ?w = "fst (scan_dates lenient ws d [3..<?m + 1])"
  let ?P = "\<lambda>w r. date_matches lenient d (cell_value w r 1)"
  have wm: "ws_max_row ?w = ?m" by (rule scan_dates_max_row) auto
  have wv: "cell_value ?w r c = cell_value ws r c" for r c by (rule scan_dates_values)
  show ?thesis
  proof (cases "List.find (?P ws) [3..<?m + 1]")
    case (Some r)
    then have first: "find_or_create_date_row lenient ws d = (r, ?w)"
      by (simp add: find_or_create_eq)
    have "List.find (?P ?w) [3..<ws_max_row ?w + 1] = Some r"
      using Some by (simp only: wm wv)
    then have second: "find_or_create_date_row lenient ?w d
        = (r, fst (scan_dates lenient ?w d [3..<ws_max_row ?w + 1]))"
      by (simp add: find_or_create_eq)
    have "ws_max_row (fst (scan_dates lenient ?w d [3..<ws_max_row ?w + 1])) = ws_max_row ?w"
      by (rule scan_dates_max_row) auto
    then show ?thesis by (simp only: first second fst_conv snd_conv wm) simp
  next
    case None
    let ?w1 = "put_cell ?w (?m + 1) 1 (CDateTime d 0)"
    from None have first: "find_or_create_date_row lenient ws d = (?m + 1, ?w1)"
      by (simp add: find_or_create_eq)
    have m1: "ws_max_row ?w1 = ?m + 1" by (simp only: ws_max_row_put_cell wm max_def split: if_splits) linarith
    have old: "cell_value ?w1 r 1 = cell_value ws r 1" if "r \<in> set [3..<?m + 1]" for r
      using that by (simp add: cell_value_put_cell scan_dates_values del: upt_Suc)
    have new: "?P ?w1 (?m + 1)"
      by (simp add: cell_value_put_cell date_matches_def cell_date_def)
    have split: "[3..<ws_max_row ?w1 + 1] = [3..<?m + 1] @ [?m + 1]"
      using assms upt_Suc_append[of 3 "?m + 1"] by (simp only: m1) simp
    have "List.find (?P ?w1) [3..<?m + 1] = List.find (?P ws) [3..<?m + 1]"
      by (rule find_cong) (simp_all only: old refl)
    with None new have "List.find (?P ?w1) [3..<ws_max_row ?w1 + 1] = Some (?m + 1)"
      by (simp only: split find_app) simp
    then have second: "find_or_create_date_row lenient ?w1 d
        = (?m + 1, fst (scan_dates lenient ?w1 d [3..<ws_max_row ?w1 + 1]))"
      by (simp add: find_or_create_eq)
    have "ws_max_row (fst (scan_dates lenient ?w1 d [3..<ws_max_row ?w1 + 1])) = ws_max_row ?w1"
      by (rule scan_dates_max_row) auto
    then show ?thesis by (simp only: first second fst_conv snd_conv m1) simp
  qed
qed

text \<open>
  Claim C7 (calling \<open>find_or_create_date_row\<close> twice with the same date gives the same row
  and appends at most one row). The lemma \<open>find_or_create_twice\<close> above shows this for
  every sheet that reaches row 2. It fails on a sheet whose cells are all in row 1: the scan
  starts at row 3, but the row appended is \<open>max_row + 1 = 2\<close>, which the second call never
  reads, so the second call appends row 3 and the date stands in two rows.
\<close>

theorem find_or_create_date_row_header_less_sheet:
  "find_or_create_date_row lenient [((1, 1), CStr [76])] d
     = (2, [((1, 1), CStr [76]), ((2, 1), CDateTime d 0)]) \<and>
   find_or_create_date_row lenient [((1, 1), CStr [76]), ((2, 1), CDateTime d 0)] d
     = (3, [((1, 1), CStr [76]), ((2, 1), CDateTime d 0), ((3, 1), CDateTime d 0)])"
  by (simp add: find_or_create_date_row_def ws_max_row_def put_cell_def)

end
